theory Spec2Isabelle
  imports Complex_Main
begin

section \<open>Upload records and the upload store (ui/src/stores/uploadStore.js)\<close>

text \<open>
  The store keeps an array of upload items behind a signal and a module-level counter.
  JavaScript numbers that the store only copies (\<open>fileSize\<close>, \<open>progress\<close>) are
  modelled as reals; NaN and the infinities are outside the model. The counter is only
  ever incremented from 0, so it is a natural number (the loss of precision of \<open>++\<close>
  beyond \<open>2 ^ 53\<close> is outside the model).
\<close>

datatype UploadStatus = Pending | Uploading | Processing | Completed | Error

record UploadItem =
  id' :: string
  fileName :: string
  fileSize :: real
  progress :: real
  status :: UploadStatus
  error :: "string option"

text \<open>
  The state of the module: \<open>uploadIdCounter\<close>, the contents of the \<open>uploads\<close> signal,
  and the callbacks handed to \<open>setTimeout\<close> that have not run yet, each with the
  milliseconds still to wait and the id it will remove.
\<close>

record store =
  uploadIdCounter :: nat
  uploads :: "UploadItem list"
  timers :: "(nat \<times> string) list"

definition init_store :: store where
  "init_store = \<lparr>uploadIdCounter = 0, uploads = [], timers = []\<rparr>"

subsection \<open>Numbers in template literals\<close>

definition digit_char :: "nat \<Rightarrow> char" where
  "digit_char d = ''0123456789'' ! d"

function dec :: "nat \<Rightarrow> string" where
  "dec n = (if n < 10 then [digit_char n] else dec (n div 10) @ [digit_char (n mod 10)])"
  by pat_completeness auto
termination
  by (relation "measure (\<lambda>n. n)") auto

declare dec.simps [simp del]

definition show_int :: "int \<Rightarrow> string" where
  "show_int t = (if t < 0 then CHR ''-'' # dec (nat (- t)) else dec (nat t))"

subsection \<open>Operations of the store\<close>

text \<open>\<open>startUpload(fileName, fileSize)\<close>; \<open>now\<close> is the value of \<open>Date.now()\<close>.\<close>

definition startUpload :: "string \<Rightarrow> real \<Rightarrow> int \<Rightarrow> store \<Rightarrow> string \<times> store" where
  "startUpload fname fsize now s =
     (let c = uploadIdCounter s + 1;
          i = ''upload-'' @ dec c @ ''-'' @ show_int now;
          newUpload = \<lparr>id' = i, fileName = fname, fileSize = fsize, progress = 0,
                       status = Pending, error = None\<rparr>
      in (i, s\<lparr>uploadIdCounter := c, uploads := newUpload # uploads s\<rparr>))"

definition updateProgress :: "string \<Rightarrow> real \<Rightarrow> store \<Rightarrow> store" where
  "updateProgress i p s =
     s\<lparr>uploads := map (\<lambda>upload. if id' upload = i
                                 then upload\<lparr>progress := p, status := Uploading\<rparr>
                                 else upload) (uploads s)\<rparr>"

definition setProcessing :: "string \<Rightarrow> store \<Rightarrow> store" where
  "setProcessing i s =
     s\<lparr>uploads := map (\<lambda>upload. if id' upload = i
                                 then upload\<lparr>progress := 100, status := Processing\<rparr>
                                 else upload) (uploads s)\<rparr>"

definition removeUpload :: "string \<Rightarrow> store \<Rightarrow> store" where
  "removeUpload i s = s\<lparr>uploads := filter (\<lambda>upload. id' upload \<noteq> i) (uploads s)\<rparr>"

text \<open>
  \<open>completeUpload\<close> sets the status and hands \<open>() => removeUpload(id)\<close> to
  \<open>setTimeout\<close> with a delay of 3000.
\<close>

definition completeUpload :: "string \<Rightarrow> store \<Rightarrow> store" where
  "completeUpload i s =
     s\<lparr>uploads := map (\<lambda>upload. if id' upload = i
                                 then upload\<lparr>status := Completed\<rparr>
                                 else upload) (uploads s),
       timers := timers s @ [(3000, i)]\<rparr>"

definition failUpload :: "string \<Rightarrow> string \<Rightarrow> store \<Rightarrow> store" where
  "failUpload i err s =
     s\<lparr>uploads := map (\<lambda>upload. if id' upload = i
                                 then upload\<lparr>status := Error, error := Some err\<rparr>
                                 else upload) (uploads s)\<rparr>"

definition hasActiveUploads :: "store \<Rightarrow> bool" where
  "hasActiveUploads s =
     list_ex (\<lambda>u. status u = Pending \<or> status u = Uploading \<or> status u = Processing)
       (uploads s)"

subsection \<open>The timer queue\<close>

text \<open>
  \<open>elapse dt\<close> lets \<open>dt\<close> milliseconds pass with the event loop idle: the callbacks whose
  delay has run out are called, earliest first (in order of registration among equals),
  and the others wait \<open>dt\<close> less.
\<close>

definition elapse :: "nat \<Rightarrow> store \<Rightarrow> store" where
  "elapse dt s =
     (let due = sort_key fst (filter (\<lambda>(r, i). r \<le> dt) (timers s));
          rest = map (\<lambda>(r, i). (r - dt, i)) (filter (\<lambda>(r, i). \<not> r \<le> dt) (timers s))
      in fold (\<lambda>(r, i). removeUpload i) due (s\<lparr>timers := rest\<rparr>))"

subsection \<open>Runs of the store\<close>

text \<open>
  Everything that can happen to the store during one run of the page: a call of one of its
  exported functions, or time passing. A run starts in \<open>init_store\<close> and collects, in
  order, the ids that the calls of \<open>startUpload\<close> returned.
\<close>

datatype event =
    StartUpload string real int
  | UpdateProgress string real
  | SetProcessing string
  | CompleteUpload string
  | FailUpload string string
  | RemoveUpload string
  | Elapse nat

fun step :: "event \<Rightarrow> store \<Rightarrow> string list \<times> store" where
  "step (StartUpload fname fsize now) s = (let (i, s') = startUpload fname fsize now s in ([i], s'))"
| "step (UpdateProgress i p) s = ([], updateProgress i p s)"
| "step (SetProcessing i) s = ([], setProcessing i s)"
| "step (CompleteUpload i) s = ([], completeUpload i s)"
| "step (FailUpload i err) s = ([], failUpload i err s)"
| "step (RemoveUpload i) s = ([], removeUpload i s)"
| "step (Elapse dt) s = ([], elapse dt s)"

fun run :: "event list \<Rightarrow> store \<Rightarrow> string list \<times> store" where
  "run [] s = ([], s)"
| "run (e # es) s =
     (let (is1, s1) = step e s; (is2, s2) = run es s1 in (is1 @ is2, s2))"

section \<open>The upload transport (apiMultipartRequestWithProgress)\<close>

text \<open>
  One call of \<open>apiMultipartRequestWithProgress\<close> owns a promise and registers
  listeners on its request. The world of that call is the store, the calls made to
  \<open>addAlert\<close> so far, and the state of the promise. A value of type \<open>'j\<close> is what
  \<open>JSON.parse\<close> returns; \<open>None\<close> as the value of a fulfilled promise is
  \<open>undefined\<close>. The listener of \<open>progress\<close> on \<open>xhr.upload\<close> calls
  \<open>updateProgress\<close> with a percentage computed in floating point; it is not among the
  listeners below, and its effect on the store is that of \<open>updateProgress\<close>.
\<close>

datatype js_error = JsError string

datatype 'j promise = Unsettled | Fulfilled "'j option" | Rejected js_error

record 'j world =
  reg :: store
  alerts :: "(string \<times> string) list"
  promise :: "'j promise"

text \<open>A promise is settled once: later calls of \<open>resolve\<close> and \<open>reject\<close> do nothing.\<close>

definition resolve :: "'j option \<Rightarrow> 'j world \<Rightarrow> 'j world" where
  "resolve v w = (if promise w = Unsettled then w\<lparr>promise := Fulfilled v\<rparr> else w)"

definition reject :: "js_error \<Rightarrow> 'j world \<Rightarrow> 'j world" where
  "reject e w = (if promise w = Unsettled then w\<lparr>promise := Rejected e\<rparr> else w)"

text \<open>
  Modelled from the spec: \<open>addAlert\<close> of \<open>components/AlertStack\<close> is not among the
  sources. The spec's AlertChannel is a fire-and-forget \<open>notify(message, severity)\<close>
  that is never read back, so a call is recorded at the end of the list of calls.
\<close>

definition addAlert :: "string \<Rightarrow> string \<Rightarrow> 'j world \<Rightarrow> 'j world" where
  "addAlert msg severity w = w\<lparr>alerts := alerts w @ [(msg, severity)]\<rparr>"

text \<open>
  The body of the function up to the creation of the promise: the upload is registered
  and the promise is new.
\<close>

definition apiMultipartRequestWithProgress ::
  "string \<Rightarrow> real \<Rightarrow> int \<Rightarrow> 'j world \<Rightarrow> string \<times> 'j world" where
  "apiMultipartRequestWithProgress fname fsize now w =
     (let (uploadId, s') = startUpload fname fsize now (reg w)
      in (uploadId, w\<lparr>reg := s', promise := Unsettled\<rparr>))"

text \<open>The listener of \<open>load\<close> on \<open>xhr.upload\<close>.\<close>

definition on_upload_load :: "string \<Rightarrow> 'j world \<Rightarrow> 'j world" where
  "on_upload_load uploadId w = w\<lparr>reg := setProcessing uploadId (reg w)\<rparr>"

text \<open>
  The listener of \<open>load\<close> on \<open>xhr\<close>, with \<open>xhr.status\<close> and \<open>xhr.responseText\<close>.
  \<open>JSON.parse\<close> is a parameter: \<open>parse body = None\<close> when it throws.
\<close>

definition on_load ::
  "(string \<Rightarrow> 'j option) \<Rightarrow> string \<Rightarrow> nat \<Rightarrow> string \<Rightarrow> 'j world \<Rightarrow> 'j world" where
  "on_load parse uploadId xhr_status responseText w =
     (if 200 \<le> xhr_status \<and> xhr_status < 300 then
        (let w1 = w\<lparr>reg := completeUpload uploadId (reg w)\<rparr>
         in case parse responseText of
              Some response \<Rightarrow> resolve (Some response) w1
            | None \<Rightarrow> resolve None w1)
      else
        (let errorMsg = (if responseText \<noteq> [] then responseText
                         else ''Upload failed with status '' @ dec xhr_status);
             w1 = w\<lparr>reg := failUpload uploadId errorMsg (reg w)\<rparr>;
             w2 = addAlert errorMsg ''error'' w1
         in reject (JsError errorMsg) w2))"

text \<open>The listener of \<open>error\<close> on \<open>xhr\<close>.\<close>

definition on_error :: "string \<Rightarrow> 'j world \<Rightarrow> 'j world" where
  "on_error uploadId w =
     (let errorMsg = ''Network error during upload'';
          w1 = w\<lparr>reg := failUpload uploadId errorMsg (reg w)\<rparr>;
          w2 = addAlert errorMsg ''error'' w1
      in reject (JsError errorMsg) w2)"

text \<open>The listener of \<open>abort\<close> on \<open>xhr\<close>.\<close>

definition on_abort :: "string \<Rightarrow> 'j world \<Rightarrow> 'j world" where
  "on_abort uploadId w =
     (let errorMsg = ''Upload cancelled'';
          w1 = w\<lparr>reg := failUpload uploadId errorMsg (reg w)\<rparr>
      in reject (JsError errorMsg) w1)"

text \<open>A world in which nothing has happened yet.\<close>

definition init_world :: "'j world" where
  "init_world = \<lparr>reg = init_store, alerts = [], promise = Unsettled\<rparr>"

section \<open>Auxiliary definitions for the proofs\<close>

text \<open>The store after one call \<open>startUpload("a.txt", 1000)\<close> at time 0 in a fresh page.\<close>

abbreviation one_upload :: store where
  "one_upload \<equiv> snd (startUpload ''a.txt'' 1000 0 init_store)"

text \<open>
  The part of an id between the prefix \<open>upload-\<close> (seven characters) and the next
  dash: the digits of the counter.
\<close>

definition id_counter :: "string \<Rightarrow> string" where
  "id_counter i = takeWhile (\<lambda>c. c \<noteq> CHR ''-'') (drop 7 i)"

text \<open>
  A stand-in for \<open>JSON.parse\<close> on two bodies: \<open>42\<close> parses, anything else throws.
\<close>

abbreviation parse_number :: "string \<Rightarrow> int option" where
  "parse_number \<equiv> (\<lambda>b. if b = ''42'' then Some 42 else None)"

text \<open>The world after one call of the transport for \<open>a.txt\<close> in a fresh page.\<close>

abbreviation one_request :: "int world" where
  "one_request \<equiv> snd (apiMultipartRequestWithProgress ''a.txt'' 1000 0 init_world)"

text \<open>The milliseconds that pass during a list of events.\<close>

definition elapsed :: "event list \<Rightarrow> nat" where
  "elapsed es = sum_list (map (\<lambda>e. case e of Elapse dt \<Rightarrow> dt | _ \<Rightarrow> 0) es)"

text \<open>
  \<open>next_removal i r s\<close>: a removal of \<open>i\<close> is pending in \<open>r\<close> milliseconds, and none
  is pending earlier.
\<close>

definition next_removal :: "string \<Rightarrow> nat \<Rightarrow> store \<Rightarrow> bool" where
  "next_removal i r s =
     ((r, i) \<in> set (timers s) \<and> list_all (\<lambda>(r', j). j = i \<longrightarrow> r \<le> r') (timers s))"

text \<open>
  \<open>ids_issued s\<close>: every id in the collection carries a counter value that
  \<open>startUpload\<close> has already used.
\<close>

definition ids_issued :: "store \<Rightarrow> bool" where
  "ids_issued s = (\<forall>j \<in> id' ` set (uploads s). \<exists>c \<le> uploadIdCounter s. id_counter j = dec c)"

section \<open>Rendering of numbers\<close>

lemma digit_char_inj: "a < 10 \<Longrightarrow> b < 10 \<Longrightarrow> digit_char a = digit_char b \<Longrightarrow> a = b"
  unfolding digit_char_def
  by (simp add: nth_eq_iff_index_eq)

lemma digit_char_not_dash: "d < 10 \<Longrightarrow> digit_char d \<noteq> CHR ''-''"
proof -
  assume "d < 10"
  then have "digit_char d \<in> set ''0123456789''"
    unfolding digit_char_def by (intro nth_mem) simp
  then show ?thesis by auto
qed

lemma dec_not_Nil: "dec n \<noteq> []"
  by (subst dec.simps) simp

lemma dec_last: "last (dec n) = digit_char (n mod 10)"
  by (subst dec.simps) simp

lemma dec_butlast: "butlast (dec n) = (if n < 10 then [] else dec (n div 10))"
  by (subst dec.simps) simp

lemma dec_inj: "dec n = dec m \<Longrightarrow> n = m"
proof (induction n arbitrary: m rule: dec.induct)
  case (1 n)
  from "1.prems" have l: "digit_char (n mod 10) = digit_char (m mod 10)"
    by (metis dec_last)
  then have lm: "n mod 10 = m mod 10"
    by (auto intro: digit_char_inj)
  from "1.prems" have b: "butlast (dec n) = butlast (dec m)" by simp
  show ?case
  proof (cases "n < 10")
    case True
    with b have "m < 10"
      using dec_not_Nil[of "m div 10"] by (auto simp: dec_butlast split: if_splits)
    with True lm show ?thesis by simp
  next
    case False
    with b have m: "\<not> m < 10" and "dec (n div 10) = dec (m div 10)"
      using dec_not_Nil[of "n div 10"] by (auto simp: dec_butlast  split: if_splits)
    with "1.IH" False have "n div 10 = m div 10" by blast
    with lm show ?thesis by (metis div_mult_mod_eq)
  qed
qed

lemma dec_no_dash: "CHR ''-'' \<notin> set (dec n)"
proof (induction n rule: dec.induct)
  case (1 n)
  show ?case
  proof (cases "n < 10")
    case True
    then show ?thesis using digit_char_not_dash[of n] by (subst dec.simps) auto
  next
    case False
    then show ?thesis using "1.IH" digit_char_not_dash[of "n mod 10"] by (subst dec.simps) auto
  qed
qed


section \<open>Ids are never reused\<close>

lemma startUpload_fst: "fst (startUpload f sz now s) = ''upload-'' @ dec (Suc (uploadIdCounter s)) @ ''-'' @ show_int now"
  by (simp add: startUpload_def Let_def)

lemma startUpload_counter: "uploadIdCounter (snd (startUpload f sz now s)) = Suc (uploadIdCounter s)"
  by (simp add: startUpload_def Let_def)

lemma takeWhile_upto: "a \<notin> set xs \<Longrightarrow> takeWhile (\<lambda>c. c \<noteq> a) (xs @ a # ys) = xs"
  by (induction xs) auto

lemma id_counter_startUpload: "id_counter (fst (startUpload f sz now s)) = dec (Suc (uploadIdCounter s))"
  using dec_no_dash[of "Suc (uploadIdCounter s)"]
  by (simp add: startUpload_fst id_counter_def takeWhile_upto)

lemma fold_removeUpload_counter: "uploadIdCounter (fold (\<lambda>(r, i). removeUpload i) ts s) = uploadIdCounter s"
  by (induction ts arbitrary: s) (auto simp: removeUpload_def)

lemma elapse_counter: "uploadIdCounter (elapse dt s) = uploadIdCounter s"
  by (simp add: elapse_def Let_def fold_removeUpload_counter)

lemma step_counter: "uploadIdCounter s \<le> uploadIdCounter (snd (step e s))"
  by (cases e) (simp_all add: split_beta startUpload_counter updateProgress_def setProcessing_def
      completeUpload_def failUpload_def removeUpload_def elapse_counter)

lemma step_ids: "i \<in> set (fst (step e s)) \<Longrightarrow>
   id_counter i = dec (uploadIdCounter (snd (step e s))) \<and> uploadIdCounter s < uploadIdCounter (snd (step e s))"
  by (cases e) (simp_all add: split_beta startUpload_counter id_counter_startUpload)

lemma run_counter: "uploadIdCounter s \<le> uploadIdCounter (snd (run es s))"
proof (induction es arbitrary: s)
  case Nil
  show ?case by simp
next
  case (Cons e es)
  have "uploadIdCounter s \<le> uploadIdCounter (snd (step e s))" by (rule step_counter)
  also have "\<dots> \<le> uploadIdCounter (snd (run es (snd (step e s))))" by (rule Cons.IH)
  finally show ?case by (simp add: split_beta)
qed

lemma run_ids: "i \<in> set (fst (run es s)) \<Longrightarrow> \<exists>c. id_counter i = dec c \<and> uploadIdCounter s < c"
proof (induction es arbitrary: s)
  case Nil
  then show ?case by simp
next
  case (Cons e es)
  from Cons.prems consider "i \<in> set (fst (step e s))" | "i \<in> set (fst (run es (snd (step e s))))"
    by (auto simp: split_beta)
  then show ?case
  proof cases
    case 1
    then show ?thesis using step_ids by blast
  next
    case 2
    then obtain c where "id_counter i = dec c" "uploadIdCounter (snd (step e s)) < c"
      using Cons.IH by blast
    with step_counter[of s e] show ?thesis by (intro exI[of _ c]) simp
  qed
qed

lemma run_distinct: "distinct (fst (run es s))"
proof (induction es arbitrary: s)
  case Nil
  show ?case by simp
next
  case (Cons e es)
  let ?s1 = "snd (step e s)"
  have d1: "distinct (fst (step e s))" by (cases e) (simp_all add: split_beta)
  have d2: "distinct (fst (run es ?s1))" by (rule Cons.IH)
  have "set (fst (step e s)) \<inter> set (fst (run es ?s1)) = {}"
  proof (rule ccontr)
    assume "\<not> ?thesis"
    then obtain i where a: "i \<in> set (fst (step e s))" and b: "i \<in> set (fst (run es ?s1))"
      by blast
    from step_ids[OF a] have "id_counter i = dec (uploadIdCounter ?s1)" by simp
    moreover from run_ids[OF b] obtain c where "id_counter i = dec c" "uploadIdCounter ?s1 < c"
      by blast
    ultimately show False using dec_inj by force
  qed
  with d1 d2 show ?case by (simp add: split_beta)
qed

section \<open>Facts about the store\<close>

text \<open>The equations that evaluate the store's operations on concrete inputs.\<close>

lemmas eval_defs = startUpload_def init_store_def dec.simps digit_char_def show_int_def Let_def
  updateProgress_def setProcessing_def completeUpload_def failUpload_def removeUpload_def

lemma removeUpload_uploads: "uploads (removeUpload i s) = filter (\<lambda>u. id' u \<noteq> i) (uploads s)"
  by (simp add: removeUpload_def)

lemma removeUpload_timers: "timers (removeUpload i s) = timers s"
  by (simp add: removeUpload_def)

subsection \<open>Timers\<close>

lemma fold_removeUpload_uploads:
  "uploads (fold (\<lambda>(r, i). removeUpload i) ts s) =
     filter (\<lambda>u. id' u \<notin> snd ` set ts) (uploads s)"
proof (induction ts arbitrary: s)
  case Nil
  show ?case by simp
next
  case (Cons t ts)
  obtain r i where t: "t = (r, i)" by (cases t)
  have "uploads (fold (\<lambda>(r, i). removeUpload i) (t # ts) s) =
        filter (\<lambda>u. id' u \<notin> snd ` set ts) (filter (\<lambda>u. id' u \<noteq> i) (uploads s))"
    by (simp add: t Cons.IH removeUpload_uploads)
  also have "\<dots> = filter (\<lambda>u. id' u \<notin> snd ` set (t # ts)) (uploads s)"
    by (auto simp: t intro: filter_cong)
  finally show ?case .
qed

lemma fold_removeUpload_timers:
  "timers (fold (\<lambda>(r, i). removeUpload i) ts s) = timers s"
  by (induction ts arbitrary: s) (auto simp: removeUpload_timers)

lemma elapse_uploads:
  "uploads (elapse dt s) =
     filter (\<lambda>u. id' u \<notin> snd ` set (filter (\<lambda>(r, i). r \<le> dt) (timers s))) (uploads s)"
  by (simp add: elapse_def Let_def fold_removeUpload_uploads)

lemma elapse_timers:
  "timers (elapse dt s) =
     map (\<lambda>(r, i). (r - dt, i)) (filter (\<lambda>(r, i). \<not> r \<le> dt) (timers s))"
  by (simp add: elapse_def Let_def fold_removeUpload_timers)

lemma elapse_add: "elapse b (elapse a s) = elapse (a + b) s"
proof (rule store.equality)
  show "uploadIdCounter (elapse b (elapse a s)) = uploadIdCounter (elapse (a + b) s)"
    by (simp add: elapse_counter)
  have "filter (\<lambda>x. \<not> fst x \<le> a \<and> \<not> fst x - a \<le> b) (timers s)
      = filter (\<lambda>p. \<not> fst p \<le> a + b) (timers s)"
    by (rule filter_cong) auto
  then show "timers (elapse b (elapse a s)) = timers (elapse (a + b) s)"
    by (simp add: elapse_timers filter_map o_def split_def) 
  show "uploads (elapse b (elapse a s)) = uploads (elapse (a + b) s)"
  proof -
    let ?A = "snd ` set (filter (\<lambda>(r, i). r \<le> a) (timers s))"
    let ?B = "snd ` set (filter (\<lambda>(r, i). r \<le> b)
                (map (\<lambda>(r, i). (r - a, i)) (filter (\<lambda>(r, i). \<not> r \<le> a) (timers s))))"
    let ?C = "snd ` set (filter (\<lambda>(r, i). r \<le> a + b) (timers s))"
    have "?A \<union> ?B = ?C"
    proof (intro equalityI subsetI)
      fix x assume "x \<in> ?A \<union> ?B"
      then show "x \<in> ?C" by (force simp: image_iff)
    next
      fix x assume "x \<in> ?C"
      then obtain r where r: "(r, x) \<in> set (timers s)" "r \<le> a + b" by auto
      show "x \<in> ?A \<union> ?B"
      proof (cases "r \<le> a")
        case True
        with r have "x \<in> ?A" by (force simp: image_iff)
        then show ?thesis by simp
      next
        case False
        with r have "(r - a, x) \<in> set (filter (\<lambda>(r, i). r \<le> b)
                (map (\<lambda>(r, i). (r - a, i)) (filter (\<lambda>(r, i). \<not> r \<le> a) (timers s))))"
          by (force simp: image_iff)
        then have "x \<in> ?B" by (metis image_eqI snd_conv)
        then show ?thesis by simp
      qed
    qed
    then have h: "\<And>u. (id' u \<notin> ?A \<and> id' u \<notin> ?B) = (id' u \<notin> ?C)" by blast
    have "filter (\<lambda>u. id' u \<notin> ?B) (filter (\<lambda>u. id' u \<notin> ?A) (uploads s))
             = filter (\<lambda>u. id' u \<notin> ?C) (uploads s)"
      by (simp only: filter_filter h)
    then show ?thesis
      by (simp only: elapse_uploads elapse_timers)
  qed
  show "store.more (elapse b (elapse a s)) = store.more (elapse (a + b) s)" by simp
qed

lemma fold_elapse: "fold elapse dts (elapse a s) = elapse (a + sum_list dts) s"
  by (induction dts arbitrary: a) (simp_all add: elapse_add add.assoc)

subsection \<open>Updates by id\<close>

lemma map_keeps_ids:
  "(\<And>u. id' (f u) = id' u) \<Longrightarrow>
   map id' (map (\<lambda>u. if id' u = i then f u else u) xs) = map id' xs"
  by (induction xs) auto

lemma completeUpload_map_ids: "map id' (uploads (completeUpload i s)) = map id' (uploads s)"
proof -
  have "uploads (completeUpload i s) =
        map (\<lambda>u. if id' u = i then u\<lparr>status := Completed\<rparr> else u) (uploads s)"
    by (simp add: completeUpload_def)
  moreover have "map id' (map (\<lambda>u. if id' u = i then u\<lparr>status := Completed\<rparr> else u) (uploads s))
      = map id' (uploads s)"
    by (rule map_keeps_ids) simp
  ultimately show ?thesis by (simp only:)
qed

lemma completeUpload_ids: "id' ` set (uploads (completeUpload i s)) = id' ` set (uploads s)"
proof -
  have "set (map id' (uploads (completeUpload i s))) = set (map id' (uploads s))"
    by (simp only: completeUpload_map_ids)
  then show ?thesis by (simp only: set_map)
qed

lemma completeUpload_timers: "timers (completeUpload i s) = timers s @ [(3000, i)]"
  by (simp add: completeUpload_def)

lemma map_matching:
  assumes "x \<in> set (map (\<lambda>u. if id' u = i then f u else u) xs)" and "id' x = i"
    and "\<And>u. id' (f u) = id' u"
  shows "\<exists>v \<in> set xs. id' v = i \<and> x = f v"
proof -
  from assms(1) have "x \<in> (\<lambda>u. if id' u = i then f u else u) ` set xs"
    by (simp only: set_map)
  then obtain v where v: "v \<in> set xs" "x = (if id' v = i then f v else v)"
    by (rule imageE)
  show ?thesis
  proof (cases "id' v = i")
    case True
    with v show ?thesis by auto
  next
    case False
    with v assms(2) show ?thesis by simp
  qed
qed

lemma id_in_filtered:
  "(i \<in> id' ` set (filter (\<lambda>u. id' u \<notin> D) us)) = (i \<in> id' ` set us \<and> i \<notin> D)"
  by auto

lemma map_other_ids: "i \<notin> id' ` set xs \<Longrightarrow> map (\<lambda>u. if id' u = i then f u else u) xs = xs"
  by (induction xs) auto

lemma filter_other_ids: "i \<notin> id' ` set xs \<Longrightarrow> filter (\<lambda>u. id' u \<noteq> i) xs = xs"
  by (induction xs) auto

lemma one_upload_eval:
  "one_upload = \<lparr>uploadIdCounter = 1,
     uploads = [\<lparr>id' = ''upload-1-0'', fileName = ''a.txt'', fileSize = 1000, progress = 0,
                 status = Pending, error = None\<rparr>],
     timers = []\<rparr>"
  by (simp add: eval_defs)

section \<open>Facts about the transport\<close>

lemma one_request_eval:
  "apiMultipartRequestWithProgress ''a.txt'' 1000 0 (init_world :: int world) =
    (''upload-1-0'',
     \<lparr>reg = \<lparr>uploadIdCounter = 1,
         uploads = [\<lparr>id' = ''upload-1-0'', fileName = ''a.txt'', fileSize = 1000, progress = 0,
                 status = Pending, error = None\<rparr>],
         timers = []\<rparr>, alerts = [], promise = Unsettled\<rparr>)"
  by (simp add: apiMultipartRequestWithProgress_def init_world_def eval_defs)

lemma failUpload_map_ids: "map id' (uploads (failUpload i err s)) = map id' (uploads s)"
proof -
  have "uploads (failUpload i err s) =
        map (\<lambda>u. if id' u = i then u\<lparr>status := Error, error := Some err\<rparr> else u) (uploads s)"
    by (simp add: failUpload_def)
  moreover have "map id' (map (\<lambda>u. if id' u = i then u\<lparr>status := Error, error := Some err\<rparr> else u) (uploads s))
      = map id' (uploads s)"
    by (rule map_keeps_ids) simp
  ultimately show ?thesis by (simp only:)
qed

lemma failUpload_status:
  assumes "u \<in> set (uploads (failUpload i err s))" and "id' u = i"
  shows "status u = Error \<and> error u = Some err"
proof -
  have "uploads (failUpload i err s) =
        map (\<lambda>u. if id' u = i then u\<lparr>status := Error, error := Some err\<rparr> else u) (uploads s)"
    by (simp add: failUpload_def)
  with assms(1) have "u \<in> set (map (\<lambda>u. if id' u = i then u\<lparr>status := Error, error := Some err\<rparr> else u) (uploads s))"
    by (simp only:)
  from map_matching [OF this assms(2)] obtain v where "u = v\<lparr>status := Error, error := Some err\<rparr>"
    by auto
  then show ?thesis by simp
qed

lemma on_load_failure:
  assumes "\<not> (200 \<le> st \<and> st < 300)" and "body \<noteq> []" and "promise w = Unsettled"
  shows "on_load parse uploadId st body w =
     w\<lparr>reg := failUpload uploadId body (reg w), alerts := alerts w @ [(body, ''error'')],
       promise := Rejected (JsError body)\<rparr>"
proof -
  from assms(1) have "(200 \<le> st \<and> st < 300) = False" by simp
  with assms(2,3) show ?thesis
    by (simp only: on_load_def Let_def addAlert_def reject_def if_False if_True) simp
qed

section \<open>Runs and pending removals\<close>

lemma elapsed_Nil: "elapsed [] = 0"
  by (simp add: elapsed_def)

lemma elapsed_Cons:
  "elapsed (e # es) = (case e of Elapse dt \<Rightarrow> dt | _ \<Rightarrow> 0) + elapsed es"
  by (simp add: elapsed_def)

lemma ids_of_map:
  "(\<And>u. id' (f u) = id' u) \<Longrightarrow>
   id' ` set (map (\<lambda>u. if id' u = i then f u else u) xs) = id' ` set xs"
proof -
  assume a: "\<And>u. id' (f u) = id' u"
  have "set (map id' (map (\<lambda>u. if id' u = i then f u else u) xs)) = set (map id' xs)"
    using a by (simp only: map_keeps_ids)
  then show ?thesis by (simp only: set_map)
qed

lemma updateProgress_ids: "id' ` set (uploads (updateProgress i p s)) = id' ` set (uploads s)"
proof -
  have "uploads (updateProgress i p s) =
        map (\<lambda>u. if id' u = i then u\<lparr>progress := p, status := Uploading\<rparr> else u) (uploads s)"
    by (simp add: updateProgress_def)
  moreover have "id' ` set (map (\<lambda>u. if id' u = i then u\<lparr>progress := p, status := Uploading\<rparr> else u)
      (uploads s)) = id' ` set (uploads s)"
    by (rule ids_of_map) simp
  ultimately show ?thesis by (simp only:)
qed

lemma setProcessing_ids: "id' ` set (uploads (setProcessing i s)) = id' ` set (uploads s)"
proof -
  have "uploads (setProcessing i s) =
        map (\<lambda>u. if id' u = i then u\<lparr>progress := 100, status := Processing\<rparr> else u) (uploads s)"
    by (simp add: setProcessing_def)
  moreover have "id' ` set (map (\<lambda>u. if id' u = i then u\<lparr>progress := 100, status := Processing\<rparr> else u)
      (uploads s)) = id' ` set (uploads s)"
    by (rule ids_of_map) simp
  ultimately show ?thesis by (simp only:)
qed

lemma failUpload_ids: "id' ` set (uploads (failUpload i err s)) = id' ` set (uploads s)"
proof -
  have "set (map id' (uploads (failUpload i err s))) = set (map id' (uploads s))"
    by (simp only: failUpload_map_ids)
  then show ?thesis by (simp only: set_map)
qed

lemma removeUpload_ids: "id' ` set (uploads (removeUpload j s)) = id' ` set (uploads s) - {j}"
  by (auto simp: removeUpload_uploads)

lemma startUpload_ids:
  "id' ` set (uploads (snd (startUpload f z n s))) =
     insert (fst (startUpload f z n s)) (id' ` set (uploads s))"
  by (simp add: startUpload_def Let_def)

lemma ids_of_filter: "id' ` set (filter (\<lambda>u. id' u \<notin> D) us) = id' ` set us - D"
  by auto

lemma elapse_ids:
  "id' ` set (uploads (elapse dt s)) =
     id' ` set (uploads s) - snd ` set (filter (\<lambda>(r, i). r \<le> dt) (timers s))"
  by (simp only: elapse_uploads ids_of_filter)

lemma startUpload_timers: "timers (snd (startUpload f z n s)) = timers s"
  by (simp add: startUpload_def Let_def)

lemma step_ids_of:
  "id' ` set (uploads (snd (step e s))) =
     (case e of
        StartUpload f z n \<Rightarrow> insert (fst (startUpload f z n s)) (id' ` set (uploads s))
      | RemoveUpload j \<Rightarrow> id' ` set (uploads s) - {j}
      | Elapse dt \<Rightarrow> id' ` set (uploads s) - snd ` set (filter (\<lambda>(r, i). r \<le> dt) (timers s))
      | _ \<Rightarrow> id' ` set (uploads s))"
  by (cases e) (simp_all only: step.simps snd_conv split_beta Let_def event.case
      startUpload_ids updateProgress_ids setProcessing_ids completeUpload_ids failUpload_ids
      removeUpload_ids elapse_ids)

lemma step_timers:
  "timers (snd (step e s)) =
     (case e of
        CompleteUpload j \<Rightarrow> timers s @ [(3000, j)]
      | Elapse dt \<Rightarrow> map (\<lambda>(r, i). (r - dt, i)) (filter (\<lambda>(r, i). \<not> r \<le> dt) (timers s))
      | _ \<Rightarrow> timers s)"
  by (cases e) (simp_all add: split_beta startUpload_timers updateProgress_def setProcessing_def
      completeUpload_timers failUpload_def removeUpload_timers elapse_timers)

lemma step_returns:
  "fst (step e s) = (case e of StartUpload f z n \<Rightarrow> [fst (startUpload f z n s)] | _ \<Rightarrow> [])"
  by (cases e) (simp_all add: split_beta)

lemma run_Cons_fst: "fst (run (e # es) s) = fst (step e s) @ fst (run es (snd (step e s)))"
  by (simp add: split_beta)

lemma run_Cons_snd: "snd (run (e # es) s) = snd (run es (snd (step e s)))"
  by (simp add: split_beta)

lemma step_absent:
  assumes "i \<notin> id' ` set (uploads s)" and "i \<notin> set (fst (step e s))"
  shows "i \<notin> id' ` set (uploads (snd (step e s)))"
  using assms by (cases e) (simp_all del: step.simps add: step_ids_of step_returns)

lemma run_absent:
  "i \<notin> id' ` set (uploads s) \<Longrightarrow> i \<notin> set (fst (run es s)) \<Longrightarrow>
   i \<notin> id' ` set (uploads (snd (run es s)))"
proof (induction es arbitrary: s)
  case Nil
  then show ?case by simp
next
  case (Cons e es)
  from Cons.prems(2) have a: "i \<notin> set (fst (step e s))"
    and b: "i \<notin> set (fst (run es (snd (step e s))))"
    by (simp_all del: run.simps add: run_Cons_fst)
  have "i \<notin> id' ` set (uploads (snd (run es (snd (step e s)))))"
    using step_absent [OF Cons.prems(1) a] b by (rule Cons.IH)
  then show ?case by (simp del: run.simps add: run_Cons_snd)
qed

lemma next_removal_append:
  "next_removal i r s \<Longrightarrow> r \<le> d \<Longrightarrow> timers s' = timers s @ [(d, j)] \<Longrightarrow> next_removal i r s'"
  by (simp add: next_removal_def)

lemma next_removal_same: "next_removal i r s \<Longrightarrow> timers s' = timers s \<Longrightarrow> next_removal i r s'"
  by (simp add: next_removal_def)

lemma next_removal_elapse:
  assumes "next_removal i r s" and "dt < r"
  shows "next_removal i (r - dt) (elapse dt s)"
proof -
  from assms(1) have m: "(r, i) \<in> set (timers s)"
    and l: "\<And>r' j. (r', j) \<in> set (timers s) \<Longrightarrow> j = i \<Longrightarrow> r \<le> r'"
    by (auto simp: next_removal_def list_all_iff)
  from m assms(2) have "(r - dt, i) \<in> set (timers (elapse dt s))"
    by (force simp: elapse_timers)
  moreover have "list_all (\<lambda>(r', j). j = i \<longrightarrow> r - dt \<le> r') (timers (elapse dt s))"
    unfolding list_all_iff elapse_timers
  proof (intro ballI)
    fix x assume "x \<in> set (map (\<lambda>(r, i). (r - dt, i)) (filter (\<lambda>(r, i). \<not> r \<le> dt) (timers s)))"
    then obtain r' j where x: "x = (r' - dt, j)" and "(r', j) \<in> set (timers s)"
      by auto
    with l have "j = i \<Longrightarrow> r \<le> r'" by blast
    with x show "case x of (r', j) \<Rightarrow> j = i \<longrightarrow> r - dt \<le> r'" by auto
  qed
  ultimately show ?thesis by (simp add: next_removal_def)
qed

lemma next_removal_not_due:
  assumes "next_removal i r s" and "dt < r"
  shows "i \<notin> snd ` set (filter (\<lambda>(r, i). r \<le> dt) (timers s))"
proof
  assume "i \<in> snd ` set (filter (\<lambda>(r, i). r \<le> dt) (timers s))"
  then obtain r' where r': "(r', i) \<in> set (timers s)" "r' \<le> dt" by auto
  from assms(1) have "\<And>r' j. (r', j) \<in> set (timers s) \<Longrightarrow> j = i \<Longrightarrow> r \<le> r'"
    by (auto simp: next_removal_def list_all_iff)
  from this [OF r'(1) refl] r'(2) have "r \<le> dt" by simp
  with assms(2) show False by simp
qed

lemma next_removal_due:
  assumes "next_removal i r s" and "r \<le> dt"
  shows "i \<in> snd ` set (filter (\<lambda>(r, i). r \<le> dt) (timers s))"
proof -
  from assms have "(r, i) \<in> set (filter (\<lambda>(r, i). r \<le> dt) (timers s))"
    by (simp add: next_removal_def)
  then show ?thesis by (metis image_eqI snd_conv)
qed

lemma step_keeps:
  assumes "i \<in> id' ` set (uploads s)" and "next_removal i r s" and "r \<le> 3000"
    and "e \<noteq> RemoveUpload i" and "\<not> (\<exists>dt. e = Elapse dt)"
  shows "i \<in> id' ` set (uploads (snd (step e s))) \<and> next_removal i r (snd (step e s))
         \<and> elapsed (e # es) = elapsed es"
  using assms
  by (cases e) (simp_all del: step.simps add: step_ids_of step_timers next_removal_def elapsed_Cons)

lemma step_elapse_early:
  assumes "i \<in> id' ` set (uploads s)" and "next_removal i r s" and "dt < r"
  shows "i \<in> id' ` set (uploads (snd (step (Elapse dt) s)))
         \<and> next_removal i (r - dt) (snd (step (Elapse dt) s))"
  using assms next_removal_not_due [OF assms(2,3)] next_removal_elapse [OF assms(2,3)]
  by (simp add: elapse_ids)

lemma step_elapse_late:
  assumes "next_removal i r s" and "r \<le> dt"
  shows "i \<notin> id' ` set (uploads (snd (step (Elapse dt) s)))"
  using next_removal_due [OF assms] by (simp add: elapse_ids)

lemma elapsed_Elapse: "elapsed (Elapse dt # es) = dt + elapsed es"
  by (simp add: elapsed_Cons)

lemma run_until_due:
  assumes "i \<in> id' ` set (uploads s)" and "next_removal i r s" and "0 < r" and "r \<le> 3000"
    and "RemoveUpload i \<notin> set es" and "i \<notin> set (fst (run es s))"
  shows "(i \<in> id' ` set (uploads (snd (run es s)))) = (elapsed es < r)"
  using assms
proof (induction es arbitrary: s r)
  case Nil
  then show ?case by (simp add: elapsed_Nil)
next
  case (Cons e es)
  let ?s1 = "snd (step e s)"
  from Cons.prems(5) have ne: "e \<noteq> RemoveUpload i" and rest: "RemoveUpload i \<notin> set es"
    by auto
  from Cons.prems(6) have fresh: "i \<notin> set (fst (run es ?s1))"
    by (simp del: run.simps add: run_Cons_fst)
  show ?case
  proof (cases "\<exists>dt. e = Elapse dt")
    case False
    from step_keeps [OF Cons.prems(1,2,4) ne this, of es]
    have p: "i \<in> id' ` set (uploads ?s1)" and n: "next_removal i r ?s1"
      and t: "elapsed (e # es) = elapsed es"
      by simp_all
    from Cons.IH [OF p n Cons.prems(3,4) rest fresh] t show ?thesis
      by (simp del: run.simps step.simps add: run_Cons_snd)
  next
    case True
    then obtain dt where e: "e = Elapse dt" by blast
    show ?thesis
    proof (cases "dt < r")
      case True
      from step_elapse_early [OF Cons.prems(1,2) True]
      have p: "i \<in> id' ` set (uploads ?s1)" and n: "next_removal i (r - dt) ?s1"
        by (simp_all del: step.simps add: e)
      from True Cons.prems(4) have "0 < r - dt" and "r - dt \<le> 3000" by simp_all
      from Cons.IH [OF p n this rest fresh]
      have "(i \<in> id' ` set (uploads (snd (run (e # es) s)))) = (elapsed es < r - dt)"
        by (simp del: run.simps step.simps add: run_Cons_snd)
      also have "\<dots> = (elapsed (e # es) < r)"
        using True by (auto simp: e elapsed_Elapse)
      finally show ?thesis .
    next
      case False
      then have "r \<le> dt" by simp
      from step_elapse_late [OF Cons.prems(2) this]
      have "i \<notin> id' ` set (uploads ?s1)" by (simp del: step.simps add: e)
      from run_absent [OF this fresh]
      have "i \<notin> id' ` set (uploads (snd (run (e # es) s)))"
        by (simp del: run.simps step.simps add: run_Cons_snd)
      moreover from False have "\<not> elapsed (e # es) < r"
        by (simp add: e elapsed_Elapse)
      ultimately show ?thesis by simp
    qed
  qed
qed

lemma ids_issued_init: "ids_issued init_store"
  by (simp add: ids_issued_def init_store_def)

lemma ids_issued_subset:
  assumes "ids_issued s" and "id' ` set (uploads s') \<subseteq> id' ` set (uploads s)"
    and "uploadIdCounter s \<le> uploadIdCounter s'"
  shows "ids_issued s'"
  unfolding ids_issued_def
proof
  fix j assume "j \<in> id' ` set (uploads s')"
  with assms(2) have "j \<in> id' ` set (uploads s)" by blast
  with assms(1) obtain c where "c \<le> uploadIdCounter s" "id_counter j = dec c"
    unfolding ids_issued_def by blast
  with assms(3) show "\<exists>c \<le> uploadIdCounter s'. id_counter j = dec c"
    by (meson le_trans)
qed

lemma ids_issued_startUpload:
  assumes "ids_issued s"
  shows "ids_issued (snd (startUpload f z n s))"
  unfolding ids_issued_def
proof
  fix j assume "j \<in> id' ` set (uploads (snd (startUpload f z n s)))"
  then consider "j = fst (startUpload f z n s)" | "j \<in> id' ` set (uploads s)"
    by (auto simp only: startUpload_ids)
  then show "\<exists>c \<le> uploadIdCounter (snd (startUpload f z n s)). id_counter j = dec c"
  proof cases
    case 1
    then show ?thesis
      by (intro exI [of _ "Suc (uploadIdCounter s)"])
        (simp add: startUpload_counter id_counter_startUpload)
  next
    case 2
    with assms obtain c where "c \<le> uploadIdCounter s" "id_counter j = dec c"
      unfolding ids_issued_def by blast
    then show ?thesis
      by (intro exI [of _ c]) (simp add: startUpload_counter)
  qed
qed

lemma ids_issued_step: "ids_issued s \<Longrightarrow> ids_issued (snd (step e s))"
proof (cases "\<exists>f z n. e = StartUpload f z n")
  case True
  assume "ids_issued s"
  with True show ?thesis by (auto simp: split_beta ids_issued_startUpload)
next
  case False
  assume a: "ids_issued s"
  from False have "id' ` set (uploads (snd (step e s))) \<subseteq> id' ` set (uploads s)"
    by (cases e) (auto simp del: step.simps simp add: step_ids_of)
  with a show ?thesis
    using step_counter by (rule ids_issued_subset)
qed

lemma ids_issued_run: "ids_issued s \<Longrightarrow> ids_issued (snd (run es s))"
proof (induction es arbitrary: s)
  case Nil
  then show ?case by simp
next
  case (Cons e es)
  have "ids_issued (snd (run es (snd (step e s))))"
    using ids_issued_step [OF Cons.prems] by (rule Cons.IH)
  then show ?case by (simp del: run.simps step.simps add: run_Cons_snd)
qed

lemma issued_not_returned:
  assumes "ids_issued s" and "i \<in> id' ` set (uploads s)"
    and "uploadIdCounter s' = uploadIdCounter s"
  shows "i \<notin> set (fst (run es s'))"
proof
  assume "i \<in> set (fst (run es s'))"
  from run_ids [OF this] obtain c where c: "id_counter i = dec c" "uploadIdCounter s' < c"
    by blast
  from assms(1,2) obtain c0 where c0: "c0 \<le> uploadIdCounter s" "id_counter i = dec c0"
    unfolding ids_issued_def by blast
  from c(1) c0(2) have "c = c0" by (simp add: dec_inj)
  with c(2) c0(1) assms(3) show False by simp
qed

lemma run_append_snd: "snd (run (es1 @ es2) s) = snd (run es2 (snd (run es1 s)))"
  by (induction es1 arbitrary: s) (simp_all add: split_beta)

lemma completeUpload_counter: "uploadIdCounter (completeUpload i s) = uploadIdCounter s"
  by (simp add: completeUpload_def)

lemma next_removal_completeUpload:
  assumes "i \<notin> snd ` set (timers s)"
  shows "next_removal i 3000 (completeUpload i s)"
proof -
  from assms have "list_all (\<lambda>(r', j). j = i \<longrightarrow> (3000::nat) \<le> r') (timers s)"
    by (force simp: list_all_iff)
  then show ?thesis
    by (simp add: next_removal_def completeUpload_timers)
qed

section \<open>The claims about the store\<close>

subsection \<open>C1: the status after updateProgress\<close>

text \<open>
  C1 says that \<open>updateProgress\<close> does not move a record whose status is Processing,
  Completed or Error back to Uploading. The store has no such check: a record that
  \<open>setProcessing\<close> has put into Processing is Uploading again after
  \<open>updateProgress\<close>.
\<close>

theorem updateProgress_reenters_uploading:
  "map status (uploads (setProcessing ''upload-1-0'' one_upload)) = [Processing]
   \<and> map status (uploads (updateProgress ''upload-1-0'' 50 (setProcessing ''upload-1-0'' one_upload)))
       = [Uploading]"
  by (simp add: one_upload_eval setProcessing_def updateProgress_def)

text \<open>
  C1, as the code has it: \<open>updateProgress(id, percent)\<close> sets the status of every record
  with that id to Uploading, whatever its status was, and leaves the status of every
  other record as it is.
\<close>

theorem updateProgress_status:
  "map status (uploads (updateProgress i p s)) =
     map (\<lambda>u. if id' u = i then Uploading else status u) (uploads s)"
  by (simp add: updateProgress_def)

theorem updateProgress_status_witness:
  "map status (uploads (updateProgress ''upload-1-0'' 10 (completeUpload ''upload-1-0'' one_upload)))
     = [Uploading]
   \<and> map status (uploads (updateProgress ''upload-1-0'' 10 (failUpload ''upload-1-0'' ''x'' one_upload)))
     = [Uploading]
   \<and> map status (uploads (updateProgress ''upload-2-0'' 10 (failUpload ''upload-1-0'' ''x'' one_upload)))
     = [Error]"
  using updateProgress_status [of "''upload-1-0''" 10 "completeUpload ''upload-1-0'' one_upload"]
    updateProgress_status [of "''upload-1-0''" 10 "failUpload ''upload-1-0'' ''x'' one_upload"]
    updateProgress_status [of "''upload-2-0''" 10 "failUpload ''upload-1-0'' ''x'' one_upload"]
  by (simp add: one_upload_eval completeUpload_def failUpload_def)

subsection \<open>C3: the progress after the status leaves Uploading\<close>

text \<open>
  C3 says that the progress is 100 after each of \<open>setProcessing\<close>, \<open>completeUpload\<close>
  and \<open>failUpload\<close>. Only \<open>setProcessing\<close> writes the progress: an upload that fails
  at 40 percent is an Error record with progress 40, and \<open>completeUpload\<close> called at 40
  percent leaves a Completed record with progress 40.
\<close>

theorem progress_not_100_after_failure:
  "map (\<lambda>u. (status u, progress u)) (uploads (failUpload ''upload-1-0'' ''Network error during upload''
      (updateProgress ''upload-1-0'' 40 one_upload))) = [(Error, 40)]
   \<and> map (\<lambda>u. (status u, progress u)) (uploads (completeUpload ''upload-1-0''
      (updateProgress ''upload-1-0'' 40 one_upload))) = [(Completed, 40)]"
  by (simp add: one_upload_eval completeUpload_def failUpload_def updateProgress_def)

text \<open>
  C3, as the code has it: \<open>setProcessing(id)\<close> sets the progress of the records with
  that id to 100; \<open>completeUpload(id)\<close> and \<open>failUpload(id, error)\<close> leave the progress
  of every record as it was.
\<close>

theorem progress_after_leaving_uploading:
  "map progress (uploads (setProcessing i s)) =
     map (\<lambda>u. if id' u = i then 100 else progress u) (uploads s)
   \<and> map progress (uploads (completeUpload i s)) = map progress (uploads s)
   \<and> map progress (uploads (failUpload i err s)) = map progress (uploads s)"
  by (simp add: setProcessing_def completeUpload_def failUpload_def)

theorem progress_after_leaving_uploading_witness:
  "map progress (uploads (setProcessing ''upload-1-0'' (updateProgress ''upload-1-0'' 40 one_upload)))
     = [100]
   \<and> map progress (uploads (completeUpload ''upload-1-0''
        (setProcessing ''upload-1-0'' (updateProgress ''upload-1-0'' 40 one_upload)))) = [100]
   \<and> map progress (uploads (failUpload ''upload-1-0'' ''x'' (updateProgress ''upload-1-0'' 40 one_upload)))
     = [40]"
  using progress_after_leaving_uploading
      [of "''upload-1-0''" "updateProgress ''upload-1-0'' 40 one_upload" "''x''"]
    progress_after_leaving_uploading
      [of "''upload-1-0''" "setProcessing ''upload-1-0'' (updateProgress ''upload-1-0'' 40 one_upload)"
        "''x''"]
  by (simp add: one_upload_eval updateProgress_def)

subsection \<open>C4: removing a record that is not in a terminal state\<close>

text \<open>
  C4 says that \<open>removeUpload\<close> on a record that is Pending, Uploading or Processing
  leaves the record in the collection. The store removes it: the Pending record of a
  fresh upload is gone after \<open>removeUpload\<close>.
\<close>

theorem removeUpload_removes_pending:
  "map status (uploads one_upload) = [Pending]
   \<and> uploads (removeUpload ''upload-1-0'' one_upload) = []"
  by (simp add: one_upload_eval removeUpload_def)

text \<open>
  C4, as the code has it: after \<open>removeUpload(id)\<close> no record with that id is left,
  whatever its status was; the records with other ids are kept, in their order; the
  counter and the pending timers are untouched.
\<close>

theorem removeUpload_any_status:
  "i \<notin> id' ` set (uploads (removeUpload i s))
   \<and> uploads (removeUpload i s) = filter (\<lambda>u. id' u \<noteq> i) (uploads s)
   \<and> uploadIdCounter (removeUpload i s) = uploadIdCounter s
   \<and> timers (removeUpload i s) = timers s"
  by (auto simp: removeUpload_def)

theorem removeUpload_any_status_witness:
  "''upload-1-0'' \<notin> id' ` set (uploads (removeUpload ''upload-1-0''
       (setProcessing ''upload-1-0'' one_upload)))
   \<and> uploads (removeUpload ''upload-1-0'' (updateProgress ''upload-1-0'' 40 one_upload)) = []"
proof -
  have a: "''upload-1-0'' \<notin> id' ` set (uploads (removeUpload ''upload-1-0''
       (setProcessing ''upload-1-0'' one_upload)))"
    using removeUpload_any_status [of "''upload-1-0''" "setProcessing ''upload-1-0'' one_upload"]
    by (rule conjunct1)
  have "uploads (removeUpload ''upload-1-0'' (updateProgress ''upload-1-0'' 40 one_upload))
      = filter (\<lambda>u. id' u \<noteq> ''upload-1-0'') (uploads (updateProgress ''upload-1-0'' 40 one_upload))"
    using removeUpload_any_status [of "''upload-1-0''" "updateProgress ''upload-1-0'' 40 one_upload"]
    by (rule conjunct1 [OF conjunct2])
  also have "\<dots> = []"
    by (simp add: one_upload_eval updateProgress_def)
  finally show ?thesis using a by simp
qed

subsection \<open>C5: startUpload\<close>

text \<open>
  C5: \<open>startUpload(fileName, fileSize)\<close> puts a new record with status Pending,
  progress 0 and the given name and size at the front of the collection and returns its
  id; and in any run of the store, from any state, the ids returned by the calls of
  \<open>startUpload\<close> are pairwise different, whatever the clock says and whatever else
  happens in between.
\<close>

theorem startUpload_fresh_record:
  "uploads (snd (startUpload fname fsize now s)) =
     \<lparr>id' = fst (startUpload fname fsize now s), fileName = fname, fileSize = fsize,
      progress = 0, status = Pending, error = None\<rparr> # uploads s
   \<and> distinct (fst (run es s0))"
  by (simp add: startUpload_def Let_def run_distinct)

theorem startUpload_fresh_record_witness:
  "uploads (snd (startUpload ''b.txt'' 5 0 one_upload)) =
     \<lparr>id' = fst (startUpload ''b.txt'' 5 0 one_upload), fileName = ''b.txt'', fileSize = 5,
      progress = 0, status = Pending, error = None\<rparr> # uploads one_upload
   \<and> distinct (fst (run [StartUpload ''a.txt'' 1000 0, RemoveUpload ''upload-1-0'',
                          StartUpload ''a.txt'' 1000 0, StartUpload ''a.txt'' 1000 0] init_store))"
  by (rule startUpload_fresh_record)

lemma run_example:
  "fst (run [StartUpload ''a.txt'' 1000 0, RemoveUpload ''upload-1-0'',
             StartUpload ''a.txt'' 1000 0, StartUpload ''a.txt'' 1000 0] init_store)
   = [''upload-1-0'', ''upload-2-0'', ''upload-3-0'']"
  by (simp add: eval_defs)

subsection \<open>C6: the removal of a completed upload\<close>

text \<open>
  C6: in any run of the page, after \<open>completeUpload(id)\<close> on a record of the
  collection with no earlier removal of that id still pending, whatever calls of the
  store (for this or any other upload) and whatever passing of time follow, except a
  call \<open>removeUpload(id)\<close> for this id, the record is in the collection as long as less
  than 3000 ms have passed since the call, and it is not once 3000 ms have passed.
\<close>

theorem completed_removed_after_3000:
  assumes "i \<in> id' ` set (uploads (snd (run es0 init_store)))"
    and "i \<notin> snd ` set (timers (snd (run es0 init_store)))"
    and "RemoveUpload i \<notin> set es"
  shows "(i \<in> id' ` set (uploads (snd (run (es0 @ CompleteUpload i # es) init_store))))
         = (elapsed es < 3000)"
proof -
  let ?s = "snd (run es0 init_store)"
  have inv: "ids_issued ?s"
    using ids_issued_init by (rule ids_issued_run)
  have fresh: "i \<notin> set (fst (run es (completeUpload i ?s)))"
    using inv assms(1) completeUpload_counter by (rule issued_not_returned)
  have present: "i \<in> id' ` set (uploads (completeUpload i ?s))"
    using assms(1) by (simp only: completeUpload_ids)
  have "(i \<in> id' ` set (uploads (snd (run es (completeUpload i ?s))))) = (elapsed es < 3000)"
    using present next_removal_completeUpload [OF assms(2)] _ _ assms(3) fresh
    by (rule run_until_due) simp_all
  moreover have "snd (run (es0 @ CompleteUpload i # es) init_store)
      = snd (run es (completeUpload i ?s))"
    by (simp del: run.simps add: run_append_snd run_Cons_snd)
  ultimately show ?thesis by (simp only:)
qed

theorem completed_removed_after_3000_witness:
  "''upload-1-0'' \<in> id' ` set (uploads (snd (run [StartUpload ''a.txt'' 1000 0] init_store)))
   \<and> ''upload-1-0'' \<notin> snd ` set (timers (snd (run [StartUpload ''a.txt'' 1000 0] init_store)))
   \<and> RemoveUpload ''upload-1-0'' \<notin> set [StartUpload ''b.txt'' 5 7, Elapse 1000,
         UpdateProgress ''upload-1-0'' 50, CompleteUpload ''upload-2-7'', Elapse 1999]
   \<and> ''upload-1-0'' \<in> id' ` set (uploads (snd (run ([StartUpload ''a.txt'' 1000 0] @
         CompleteUpload ''upload-1-0'' # [StartUpload ''b.txt'' 5 7, Elapse 1000,
         UpdateProgress ''upload-1-0'' 50, CompleteUpload ''upload-2-7'', Elapse 1999]) init_store)))
   \<and> ''upload-1-0'' \<notin> id' ` set (uploads (snd (run ([StartUpload ''a.txt'' 1000 0] @
         CompleteUpload ''upload-1-0'' # [StartUpload ''b.txt'' 5 7, Elapse 1000,
         UpdateProgress ''upload-1-0'' 50, CompleteUpload ''upload-2-7'', Elapse 1999, Elapse 1])
         init_store)))"
proof -
  have a: "''upload-1-0'' \<in> id' ` set (uploads (snd (run [StartUpload ''a.txt'' 1000 0] init_store)))"
    and b: "''upload-1-0'' \<notin> snd ` set (timers (snd (run [StartUpload ''a.txt'' 1000 0] init_store)))"
    by (simp_all add: eval_defs)
  have c: "RemoveUpload ''upload-1-0'' \<notin> set [StartUpload ''b.txt'' 5 7, Elapse 1000,
         UpdateProgress ''upload-1-0'' 50, CompleteUpload ''upload-2-7'', Elapse 1999]"
    and d: "RemoveUpload ''upload-1-0'' \<notin> set [StartUpload ''b.txt'' 5 7, Elapse 1000,
         UpdateProgress ''upload-1-0'' 50, CompleteUpload ''upload-2-7'', Elapse 1999, Elapse 1]"
    by simp_all
  have "elapsed [StartUpload ''b.txt'' 5 7, Elapse 1000,
         UpdateProgress ''upload-1-0'' 50, CompleteUpload ''upload-2-7'', Elapse 1999] < 3000"
    and "\<not> elapsed [StartUpload ''b.txt'' 5 7, Elapse 1000,
         UpdateProgress ''upload-1-0'' 50, CompleteUpload ''upload-2-7'', Elapse 1999, Elapse 1] < 3000"
    by (simp_all add: elapsed_def)
  with completed_removed_after_3000 [OF a b c] completed_removed_after_3000 [OF a b d] a b c
  show ?thesis by blast
qed

subsection \<open>C9: operations on an id that is not in the collection\<close>

text \<open>
  C9: for an id that no record of the collection has, \<open>updateProgress\<close>,
  \<open>setProcessing\<close>, \<open>failUpload\<close> and \<open>removeUpload\<close> return the store as it
  was, and \<open>completeUpload\<close> leaves the collection as it was (it still registers its
  timer); \<open>removeUpload\<close> twice is \<open>removeUpload\<close> once, for every id and store.
  None of the five operations has a failing branch: each is a total function of the
  store.
\<close>

theorem unknown_id_ignored:
  assumes "i \<notin> id' ` set (uploads s)"
  shows "updateProgress i p s = s \<and> setProcessing i s = s \<and>
         uploads (completeUpload i s) = uploads s \<and> failUpload i err s = s \<and>
         removeUpload i s = s \<and> removeUpload j (removeUpload j s') = removeUpload j s'"
  using assms
  by (simp add: updateProgress_def setProcessing_def completeUpload_def failUpload_def
      removeUpload_def map_other_ids filter_other_ids)


theorem unknown_id_ignored_witness:
  "''upload-7-0'' \<notin> id' ` set (uploads one_upload)
   \<and> updateProgress ''upload-7-0'' 50 one_upload = one_upload
   \<and> setProcessing ''upload-7-0'' one_upload = one_upload
   \<and> uploads (completeUpload ''upload-7-0'' one_upload) = uploads one_upload
   \<and> failUpload ''upload-7-0'' ''x'' one_upload = one_upload
   \<and> removeUpload ''upload-7-0'' one_upload = one_upload
   \<and> removeUpload ''upload-1-0'' (removeUpload ''upload-1-0'' one_upload)
       = removeUpload ''upload-1-0'' one_upload"
proof -
  have a: "''upload-7-0'' \<notin> id' ` set (uploads one_upload)"
    by (simp add: one_upload_eval)
  show ?thesis
    using a unknown_id_ignored [OF a, where p = 50 and err = "''x''" and j = "''upload-1-0''"
        and s' = one_upload]
    by simp
qed

subsection \<open>C10: updateProgress stores its argument\<close>

text \<open>
  C10: \<open>updateProgress(id, p)\<close> keeps the records and their ids, and the progress of
  every record with that id is exactly \<open>p\<close> afterwards, for every number \<open>p\<close>: nothing
  is clamped to the range from 0 to 100, rounded, or compared with the old progress.
\<close>

theorem updateProgress_stores_argument:
  "map id' (uploads (updateProgress i p s)) = map id' (uploads s)
   \<and> map progress (uploads (updateProgress i p s)) =
       map (\<lambda>u. if id' u = i then p else progress u) (uploads s)"
proof -
  have "uploads (updateProgress i p s) =
        map (\<lambda>u. if id' u = i then u\<lparr>progress := p, status := Uploading\<rparr> else u) (uploads s)"
    by (simp add: updateProgress_def)
  moreover have "map id' (map (\<lambda>u. if id' u = i then u\<lparr>progress := p, status := Uploading\<rparr> else u)
      (uploads s)) = map id' (uploads s)"
    by (rule map_keeps_ids) simp
  ultimately show ?thesis by simp
qed

theorem updateProgress_stores_argument_witness:
  "map progress (uploads (updateProgress ''upload-1-0'' 150 one_upload)) = [150]
   \<and> map progress (uploads (updateProgress ''upload-1-0'' (- 7 / 2) one_upload)) = [- 7 / 2]
   \<and> map progress (uploads (updateProgress ''upload-1-0'' 30
        (updateProgress ''upload-1-0'' 80 one_upload))) = [30]"
  using updateProgress_stores_argument [of "''upload-1-0''" 150 one_upload]
    updateProgress_stores_argument [of "''upload-1-0''" "- 7 / 2" one_upload]
    updateProgress_stores_argument [of "''upload-1-0''" 30 "updateProgress ''upload-1-0'' 80 one_upload"]
  by (simp add: one_upload_eval updateProgress_def)

section \<open>The claims about the transport\<close>

subsection \<open>C2: a response with status 500\<close>

text \<open>
  C2 says that the caller's operation fails with a ServerError that carries the status
  500. The listener rejects with \<open>new Error(errorMsg)\<close>, which carries the message
  only: the responses 500 and 503 with the body \<open>disk full\<close> reject the promise with the
  same value.
\<close>

theorem server_error_status_not_carried:
  "promise (on_load parse_number ''upload-1-0'' 500 ''disk full'' one_request)
     = Rejected (JsError ''disk full'')
   \<and> promise (on_load parse_number ''upload-1-0'' 503 ''disk full'' one_request)
     = Rejected (JsError ''disk full'')"
  by (simp add: one_request_eval on_load_def Let_def addAlert_def reject_def)

text \<open>
  C2, as the code has it: when the \<open>load\<close> listener runs with a status outside 200..299
  (500, say) and a body that is not empty (\<open>disk full\<close>, say) while the promise is
  unsettled, the store is the one after \<open>failUpload(uploadId, body)\<close>, so every record
  with the upload's id has status Error and the body as its error; \<open>addAlert\<close> is called
  exactly once, with the body and \<open>error\<close>; and the promise is rejected with an
  \<open>Error\<close> whose message is the body.
\<close>

theorem server_error_response:
  assumes "\<not> (200 \<le> st \<and> st < 300)" and "body \<noteq> []" and "promise w = Unsettled"
  shows "reg (on_load parse uploadId st body w) = failUpload uploadId body (reg w)
    \<and> map id' (uploads (reg (on_load parse uploadId st body w))) = map id' (uploads (reg w))
    \<and> (\<forall>u \<in> set (uploads (reg (on_load parse uploadId st body w))).
          id' u = uploadId \<longrightarrow> status u = Error \<and> error u = Some body)
    \<and> alerts (on_load parse uploadId st body w) = alerts w @ [(body, ''error'')]
    \<and> promise (on_load parse uploadId st body w) = Rejected (JsError body)"
  using on_load_failure [OF assms, of parse uploadId]
  by (simp add: failUpload_map_ids failUpload_status)

theorem server_error_response_witness:
  "\<not> (200 \<le> (500::nat) \<and> (500::nat) < 300) \<and> ''disk full'' \<noteq> [] \<and> promise one_request = Unsettled
   \<and> map (\<lambda>u. (id' u, status u, error u))
        (uploads (reg (on_load parse_number ''upload-1-0'' 500 ''disk full'' one_request)))
      = [(''upload-1-0'', Error, Some ''disk full'')]
   \<and> alerts (on_load parse_number ''upload-1-0'' 500 ''disk full'' one_request)
      = [(''disk full'', ''error'')]
   \<and> promise (on_load parse_number ''upload-1-0'' 500 ''disk full'' one_request)
      = Rejected (JsError ''disk full'')"
proof -
  have a: "\<not> (200 \<le> (500::nat) \<and> (500::nat) < 300)" and b: "''disk full'' \<noteq> []"
    and c: "promise one_request = Unsettled"
    by (simp_all add: one_request_eval)
  show ?thesis
    using a b c server_error_response [OF a b c, of parse_number "''upload-1-0''"]
    by (simp add: one_request_eval failUpload_def)
qed

subsection \<open>C7: a response with a status from 200 to 299\<close>

text \<open>
  C7: when the \<open>load\<close> listener runs with a status from 200 to 299 while the promise is
  unsettled, the store is the one after \<open>completeUpload(uploadId)\<close>, the promise is
  fulfilled with the parsed value when \<open>JSON.parse\<close> returns one and with \<open>undefined\<close>
  when it throws, and \<open>addAlert\<close> is not called.
\<close>

theorem success_response:
  assumes "200 \<le> st" and "st < 300" and "promise w = Unsettled"
  shows "reg (on_load parse uploadId st body w) = completeUpload uploadId (reg w)
    \<and> promise (on_load parse uploadId st body w) = Fulfilled (parse body)
    \<and> alerts (on_load parse uploadId st body w) = alerts w"
  using assms by (simp add: on_load_def Let_def resolve_def split: option.splits)

theorem success_response_witness:
  "200 \<le> (204::nat) \<and> (204::nat) < 300 \<and> promise one_request = Unsettled
   \<and> promise (on_load parse_number ''upload-1-0'' 204 ''42'' one_request) = Fulfilled (Some 42)
   \<and> promise (on_load parse_number ''upload-1-0'' 204 ''<html>'' one_request) = Fulfilled None
   \<and> alerts (on_load parse_number ''upload-1-0'' 204 ''<html>'' one_request) = []
   \<and> map status (uploads (reg (on_load parse_number ''upload-1-0'' 204 ''<html>'' one_request)))
      = [Completed]"
proof -
  have a: "200 \<le> (204::nat)" and b: "(204::nat) < 300" and c: "promise one_request = Unsettled"
    by (simp_all add: one_request_eval)
  show ?thesis
    using a b c success_response [OF a b c, of parse_number "''upload-1-0''" "''42''"]
      success_response [OF a b c, of parse_number "''upload-1-0''" "''<html>''"]
    by (simp add: one_request_eval completeUpload_def)
qed

subsection \<open>C8: an aborted request\<close>

text \<open>
  C8 says that the upload is failed with the message \<open>cancelled\<close> and the operation with
  a CancelledError. The listener's message is \<open>Upload cancelled\<close>, and it rejects with
  \<open>new Error(errorMsg)\<close>: the same value as after a response 500 whose body is
  \<open>Upload cancelled\<close>.
\<close>

theorem abort_message_and_error:
  "map error (uploads (reg (on_abort ''upload-1-0'' one_request))) = [Some ''Upload cancelled'']
   \<and> map error (uploads (reg (on_abort ''upload-1-0'' one_request))) \<noteq> [Some ''cancelled'']
   \<and> promise (on_abort ''upload-1-0'' one_request)
      = promise (on_load parse_number ''upload-1-0'' 500 ''Upload cancelled'' one_request)"
  by (simp add: one_request_eval on_abort_def on_load_def Let_def addAlert_def reject_def failUpload_def)

text \<open>
  C8, as the code has it: when the \<open>abort\<close> listener runs while the promise is
  unsettled, the store is the one after \<open>failUpload(uploadId, "Upload cancelled")\<close>, so
  every record with the upload's id has status Error and that message as its error;
  \<open>addAlert\<close> is not called; and the promise is rejected with an \<open>Error\<close> whose
  message is \<open>Upload cancelled\<close>.
\<close>

theorem abort_listener:
  assumes "promise w = Unsettled"
  shows "reg (on_abort uploadId w) = failUpload uploadId ''Upload cancelled'' (reg w)
    \<and> map id' (uploads (reg (on_abort uploadId w))) = map id' (uploads (reg w))
    \<and> (\<forall>u \<in> set (uploads (reg (on_abort uploadId w))).
          id' u = uploadId \<longrightarrow> status u = Error \<and> error u = Some ''Upload cancelled'')
    \<and> alerts (on_abort uploadId w) = alerts w
    \<and> promise (on_abort uploadId w) = Rejected (JsError ''Upload cancelled'')"
  using assms
  by (simp add: on_abort_def Let_def reject_def failUpload_map_ids failUpload_status)

theorem abort_listener_witness:
  "promise one_request = Unsettled
   \<and> map (\<lambda>u. (id' u, status u, error u)) (uploads (reg (on_abort ''upload-1-0'' one_request)))
      = [(''upload-1-0'', Error, Some ''Upload cancelled'')]
   \<and> alerts (on_abort ''upload-1-0'' one_request) = []
   \<and> promise (on_abort ''upload-1-0'' one_request) = Rejected (JsError ''Upload cancelled'')"
proof -
  have c: "promise one_request = Unsettled"
    by (simp add: one_request_eval)
  show ?thesis
    using c abort_listener [OF c, of "''upload-1-0''"]
    by (simp add: one_request_eval failUpload_def)
qed

end
